theory Spec2Isabelle
  imports Main "HOL-Library.Word"
begin

section \<open>The memory pool of memory_manager.c\<close>

text \<open>
  The pool manager keeps three globals (\<open>pool_start\<close>, \<open>pool_head\<close>,
  \<open>total_pool_size\<close>) and a singly linked list of \<open>MemBlock\<close> records, one per
  segment of the arena. The embedding follows the C text function by function.

  \<^item> \<open>size_t\<close> and \<open>void*\<close> are 64-bit words: \<open>+\<close> and \<open>-\<close> wrap around exactly as
    unsigned C arithmetic does, \<open>NULL\<close> is the word 0.
  \<^item> The linked list hanging off \<open>pool_head\<close> is a HOL list of records; \<open>next_block\<close> is
    the tail of the list and \<open>pool_head = NULL\<close> is the empty list. The records are
    owned by the list alone, so no claim depends on their own addresses.
  \<^item> \<open>is_available\<close> only ever holds 0 or 1 and is only tested for truth: a \<open>bool\<close>.
  \<^item> The bytes of the address space are a function from addresses to bytes; only
    \<open>memcpy\<close> in \<open>mem_resize\<close> writes them.
  \<^item> What the code prints on \<open>stderr\<close> is a list of messages in the state, appended to
    in program order.
  \<^item> The answers of the system allocator are parameters: the address returned by
    \<open>malloc(pool_size)\<close> and, for each \<open>malloc(sizeof(MemBlock))\<close>, whether it succeeded.
  \<^item> \<open>exit(EXIT_FAILURE)\<close> is the error value of \<open>mem_init\<close>; it carries what
    \<open>perror\<close> printed before.
  \<^item> The parameter \<open>size\<close> of the C functions is written \<open>sz\<close>: \<open>size\<close> is a
    constant of HOL.
\<close>

type_synonym size_t = "64 word"
type_synonym addr = "64 word"
type_synonym byte = "8 word"

definition NULL :: addr where
  "NULL = 0"

record MemBlock =
  block_size :: size_t
  is_available :: bool
  data_ptr :: addr

datatype msg =
    Perror_pool
  | Perror_block_metadata
  | Perror_new_block_metadata
  | Warn_free_null
  | Warn_already_free addr
  | Warn_not_from_pool addr
  | Warn_resize_not_found addr

datatype error = Exit_failure msg

record pool =
  pool_start :: addr
  pool_head :: "MemBlock list"
  total_pool_size :: size_t
  memory :: "addr \<Rightarrow> byte"
  stderr :: "msg list"

subsection \<open>mem_init and mem_deinit\<close>

text \<open>
  \<open>arena\<close> is what \<open>malloc(pool_size)\<close> returned and \<open>head_ok\<close> whether the
  \<open>malloc\<close> of the first record succeeded. Both failures print and exit. The globals
  are overwritten without a look at their old values.
\<close>

definition mem_init :: "size_t \<Rightarrow> addr \<Rightarrow> bool \<Rightarrow> pool \<Rightarrow> error + pool" where
  "mem_init pool_size arena head_ok st =
     (if arena = NULL then Inl (Exit_failure Perror_pool)
      else if \<not> head_ok then Inl (Exit_failure Perror_block_metadata)
      else Inr (st\<lparr>pool_start := arena,
                   total_pool_size := pool_size,
                   pool_head := [\<lparr>block_size = pool_size, is_available = True,
                                   data_ptr = arena\<rparr>]\<rparr>))"

definition mem_deinit :: "pool \<Rightarrow> pool" where
  "mem_deinit st = st\<lparr>pool_start := NULL, pool_head := [], total_pool_size := 0\<rparr>"

subsection \<open>mem_alloc\<close>

text \<open>
  The \<open>while\<close> loop of \<open>mem_alloc\<close> over the list that starts at \<open>current\<close>. It returns
  the pointer handed out, what was printed, and the list as the loop left it.
  \<open>new_ok\<close> says whether the \<open>malloc\<close> of the remainder's record succeeds.
\<close>

fun alloc_walk :: "size_t \<Rightarrow> bool \<Rightarrow> MemBlock list \<Rightarrow> addr \<times> msg list \<times> MemBlock list" where
  "alloc_walk sz new_ok [] = (NULL, [], [])"
| "alloc_walk sz new_ok (current # rest) =
     (if is_available current \<and> sz \<le> block_size current then
        (if sz < block_size current then
           (if \<not> new_ok then (NULL, [Perror_new_block_metadata], current # rest)
            else
              (data_ptr current, [],
               current\<lparr>block_size := sz, is_available := False\<rparr>
               # \<lparr>block_size = block_size current - sz, is_available = True,
                   data_ptr = data_ptr current + sz\<rparr>
               # rest))
         else (data_ptr current, [], current\<lparr>is_available := False\<rparr> # rest))
      else (case alloc_walk sz new_ok rest of
              (p, out, rest') \<Rightarrow> (p, out, current # rest')))"

definition mem_alloc :: "size_t \<Rightarrow> bool \<Rightarrow> pool \<Rightarrow> addr \<times> pool" where
  "mem_alloc sz new_ok st =
     (case alloc_walk sz new_ok (pool_head st) of
        (p, out, bs) \<Rightarrow> (p, st\<lparr>pool_head := bs, stderr := stderr st @ out\<rparr>))"

subsection \<open>mem_free\<close>

text \<open>
  The inner loop of \<open>mem_free\<close>: \<open>current\<close> swallows every available record that
  follows it directly; each swallowed record is unlinked and released.
\<close>

fun coalesce :: "MemBlock \<Rightarrow> MemBlock list \<Rightarrow> MemBlock list" where
  "coalesce current [] = [current]"
| "coalesce current (next_block # rest) =
     (if is_available next_block
      then coalesce (current\<lparr>block_size := block_size current + block_size next_block\<rparr>) rest
      else current # next_block # rest)"

text \<open>The outer loop of \<open>mem_free\<close>, for a pointer that is not \<open>NULL\<close>.\<close>

fun free_walk :: "addr \<Rightarrow> MemBlock list \<Rightarrow> msg list \<times> MemBlock list" where
  "free_walk ptr [] = ([Warn_not_from_pool ptr], [])"
| "free_walk ptr (current # rest) =
     (if data_ptr current = ptr then
        (if is_available current then ([Warn_already_free ptr], current # rest)
         else ([], coalesce (current\<lparr>is_available := True\<rparr>) rest))
      else (case free_walk ptr rest of (out, rest') \<Rightarrow> (out, current # rest')))"

definition mem_free :: "addr \<Rightarrow> pool \<Rightarrow> pool" where
  "mem_free ptr st =
     (if ptr = NULL then st\<lparr>stderr := stderr st @ [Warn_free_null]\<rparr>
      else (case free_walk ptr (pool_head st) of
              (out, bs) \<Rightarrow> st\<lparr>pool_head := bs, stderr := stderr st @ out\<rparr>))"

subsection \<open>mem_resize\<close>

text \<open>
  \<open>memcpy dst src n\<close> on regions that do not overlap: byte \<open>i\<close> of the destination
  becomes byte \<open>i\<close> of the source, for \<open>i < n\<close>; every other byte stays. C leaves the
  call undefined when the regions overlap; \<open>regions_disjoint\<close> is the condition under
  which the C call is defined (neither region runs past the end of the address
  space and they share no byte), and the theorem on \<open>mem_resize\<close> shows that it
  holds at the one call site.
\<close>

definition memcpy :: "addr \<Rightarrow> addr \<Rightarrow> size_t \<Rightarrow> (addr \<Rightarrow> byte) \<Rightarrow> (addr \<Rightarrow> byte)" where
  "memcpy dst src n m = (\<lambda>a. if a - dst < n then m (src + (a - dst)) else m a)"

definition regions_disjoint :: "addr \<Rightarrow> addr \<Rightarrow> size_t \<Rightarrow> bool" where
  "regions_disjoint dst src n =
     (n = 0 \<or>
      (unat dst + unat n \<le> 2 ^ 64 \<and> unat src + unat n \<le> 2 ^ 64 \<and>
       (unat dst + unat n \<le> unat src \<or> unat src + unat n \<le> unat dst)))"

text \<open>
  The search loop of \<open>mem_resize\<close> stops at the first record whose \<open>data_ptr\<close> is
  \<open>ptr\<close>. \<open>block->block_size\<close> is read after the call of \<open>mem_alloc\<close>; that call writes
  only to a record whose size is at least \<open>size\<close>, and \<open>block\<close> is smaller, so the value
  read is the one \<open>block\<close> had before the call.
\<close>

definition mem_resize :: "addr \<Rightarrow> size_t \<Rightarrow> bool \<Rightarrow> pool \<Rightarrow> addr \<times> pool" where
  "mem_resize ptr sz new_ok st =
     (if ptr = NULL then mem_alloc sz new_ok st
      else (case find (\<lambda>b. data_ptr b = ptr) (pool_head st) of
              None \<Rightarrow> (NULL, st\<lparr>stderr := stderr st @ [Warn_resize_not_found ptr]\<rparr>)
            | Some block \<Rightarrow>
                (if sz \<le> block_size block then (ptr, st)
                 else (case mem_alloc sz new_ok st of
                         (new_ptr, st1) \<Rightarrow>
                           (if new_ptr \<noteq> NULL
                            then (new_ptr,
                                  mem_free ptr
                                    (st1\<lparr>memory :=
                                           memcpy new_ptr ptr (block_size block) (memory st1)\<rparr>))
                            else (new_ptr, st1))))))"

subsection \<open>Sequences of calls\<close>

text \<open>
  A public call with its arguments and, where the call may ask for a new record, the
  system allocator's answer.
\<close>

datatype call =
    Alloc size_t bool
  | Free addr
  | Resize addr size_t bool

fun exec :: "call \<Rightarrow> pool \<Rightarrow> pool" where
  "exec (Alloc sz new_ok) st = snd (mem_alloc sz new_ok st)"
| "exec (Free ptr) st = mem_free ptr st"
| "exec (Resize ptr sz new_ok) st = snd (mem_resize ptr sz new_ok st)"

fun run :: "call list \<Rightarrow> pool \<Rightarrow> pool" where
  "run [] st = st"
| "run (c # cs) st = run cs (exec c st)"

text \<open>
  The calls that reach \<open>mem_alloc\<close> with a size of 0. (\<open>mem_resize\<close> with a
  pointer that is not \<open>NULL\<close> calls \<open>mem_alloc\<close> only with a size above a block's
  size.)
\<close>

fun asks_zero :: "call \<Rightarrow> bool" where
  "asks_zero (Alloc sz new_ok) = (sz = 0)"
| "asks_zero (Free ptr) = False"
| "asks_zero (Resize ptr sz new_ok) = (ptr = NULL \<and> sz = 0)"

subsection \<open>The invariants of the descriptor list\<close>

text \<open>
  \<open>covers a bs e\<close>: walked from its head, the list \<open>bs\<close> tiles the addresses from \<open>a\<close> up
  to \<open>e\<close>: the first record starts at \<open>a\<close>, each record starts where the one
  before it ends, and the last one ends at \<open>e\<close>. Addresses are read as numbers, so
  nothing here wraps.
\<close>

fun covers :: "nat \<Rightarrow> MemBlock list \<Rightarrow> nat \<Rightarrow> bool" where
  "covers a [] e = (a = e)"
| "covers a (b # bs) e = (unat (data_ptr b) = a \<and> covers (a + unat (block_size b)) bs e)"

text \<open>
  An initialized pool: the arena is a block of \<open>total_pool_size\<close> bytes at the
  non-null address \<open>pool_start\<close>, inside the address space, the list is not empty and
  tiles the arena.
\<close>

definition pool_inv :: "pool \<Rightarrow> bool" where
  "pool_inv st =
     (pool_start st \<noteq> NULL \<and> pool_head st \<noteq> [] \<and>
      unat (pool_start st) + unat (total_pool_size st) \<le> 2 ^ 64 \<and>
      covers (unat (pool_start st)) (pool_head st)
        (unat (pool_start st) + unat (total_pool_size st)))"

text \<open>What the system allocator promises of a successful \<open>malloc(n)\<close>.\<close>

definition malloc_post :: "addr \<Rightarrow> size_t \<Rightarrow> bool" where
  "malloc_post p n = (p \<noteq> NULL \<and> unat p + unat n \<le> 2 ^ 64)"

text \<open>The addresses at which the records of a list start, in list order.\<close>

definition starts :: "MemBlock list \<Rightarrow> nat list" where
  "starts bs = map (\<lambda>b. unat (data_ptr b)) bs"

fun no_adjacent_free :: "MemBlock list \<Rightarrow> bool" where
  "no_adjacent_free [] = True"
| "no_adjacent_free [b] = True"
| "no_adjacent_free (b # c # bs) =
     (\<not> (is_available b \<and> is_available c) \<and> no_adjacent_free (c # bs))"

definition fits :: "size_t \<Rightarrow> MemBlock \<Rightarrow> bool" where
  "fits sz b = (is_available b \<and> sz \<le> block_size b)"

subsection \<open>Example states\<close>

text \<open>
  The globals as the C file initialises them, and the pool that \<open>mem_init(100)\<close>
  builds when the system allocator puts the arena at address 4096.
\<close>

definition startup :: pool where
  "startup = \<lparr>pool_start = NULL, pool_head = [], total_pool_size = 0,
              memory = (\<lambda>a. 0), stderr = []\<rparr>"

definition pool_100 :: pool where
  "pool_100 = \<lparr>pool_start = 4096,
               pool_head = [\<lparr>block_size = 100, is_available = True, data_ptr = 4096\<rparr>],
               total_pool_size = 100, memory = (\<lambda>a. 0), stderr = []\<rparr>"

text \<open>
  \<open>pool_100\<close> after \<open>a = mem_alloc(30)\<close>, \<open>b = mem_alloc(20)\<close> and \<open>mem_free(a)\<close>:
  a free block, a block in use and a free block.
\<close>

definition pool_abc :: pool where
  "pool_abc = \<lparr>pool_start = 4096,
               pool_head = [\<lparr>block_size = 30, is_available = True, data_ptr = 4096\<rparr>,
                            \<lparr>block_size = 20, is_available = False, data_ptr = 4126\<rparr>,
                            \<lparr>block_size = 50, is_available = True, data_ptr = 4146\<rparr>],
               total_pool_size = 100, memory = (\<lambda>a. 0), stderr = []\<rparr>"

text \<open>
  \<open>pool_abc\<close> after \<open>mem_alloc(10)\<close> and \<open>mem_free(b)\<close>: a block in use followed by two
  free blocks.
\<close>

definition pool_frag :: pool where
  "pool_frag = \<lparr>pool_start = 4096,
                pool_head = [\<lparr>block_size = 10, is_available = False, data_ptr = 4096\<rparr>,
                             \<lparr>block_size = 20, is_available = True, data_ptr = 4106\<rparr>,
                             \<lparr>block_size = 70, is_available = True, data_ptr = 4126\<rparr>],
                total_pool_size = 100, memory = (\<lambda>a. 0), stderr = []\<rparr>"

section \<open>Lemmas on the list walks\<close>

lemma alloc_walk_none:
  "find (fits sz) bs = None \<Longrightarrow> alloc_walk sz new_ok bs = (NULL, [], bs)"
  by (induction bs) (auto simp: fits_def)

lemma alloc_walk_no_record:
  "find (fits sz) bs = Some b \<Longrightarrow> sz < block_size b \<Longrightarrow>
   alloc_walk sz False bs = (NULL, [Perror_new_block_metadata], bs)"
  by (induction bs) (auto simp: fits_def split: if_splits)

lemma alloc_walk_found:
  "\<forall>x\<in>set xs. \<not> fits sz x \<Longrightarrow> fits sz b \<Longrightarrow>
   alloc_walk sz new_ok (xs @ b # ys) =
     (if sz < block_size b then
        (if new_ok then
           (data_ptr b, [],
            xs @ b\<lparr>block_size := sz, is_available := False\<rparr>
               # \<lparr>block_size = block_size b - sz, is_available = True,
                   data_ptr = data_ptr b + sz\<rparr> # ys)
         else (NULL, [Perror_new_block_metadata], xs @ b # ys))
      else (data_ptr b, [], xs @ b\<lparr>is_available := False\<rparr> # ys))"
  by (induction xs) (auto simp: fits_def)

lemma find_split:
  "find P bs = Some b \<Longrightarrow> \<exists>xs ys. bs = xs @ b # ys \<and> (\<forall>x\<in>set xs. \<not> P x) \<and> P b"
proof (induction bs)
  case Nil
  then show ?case by simp
next
  case (Cons a bs)
  show ?case
  proof (cases "P a")
    case True
    with Cons.prems have "a = b" by simp
    with True show ?thesis by (intro exI [of _ "[]"] exI [of _ bs]) simp
  next
    case False
    with Cons obtain xs ys where "bs = xs @ b # ys" "\<forall>x\<in>set xs. \<not> P x" "P b"
      by auto
    with False show ?thesis by (intro exI [of _ "a # xs"] exI [of _ ys]) simp
  qed
qed

subsection \<open>The tiling is kept\<close>

lemma covers_le: "covers a bs e \<Longrightarrow> a \<le> e"
proof (induction bs arbitrary: a)
  case Nil
  then show ?case by simp
next
  case (Cons b bs)
  then have "a + unat (block_size b) \<le> e" by simp
  then show ?case by simp
qed

lemma covers_append:
  "covers a (xs @ ys) e = (\<exists>m. covers a xs m \<and> covers m ys e)"
  by (induction xs arbitrary: a) auto

lemma covers_bounds:
  "covers a bs e \<Longrightarrow> b \<in> set bs \<Longrightarrow>
   a \<le> unat (data_ptr b) \<and> unat (data_ptr b) + unat (block_size b) \<le> e"
proof (induction bs arbitrary: a)
  case Nil
  then show ?case by simp
next
  case (Cons c bs)
  from Cons.prems(1) have c: "unat (data_ptr c) = a"
    and rest: "covers (a + unat (block_size c)) bs e" by simp_all
  show ?case
  proof (cases "b = c")
    case True
    with c covers_le [OF rest] show ?thesis by simp
  next
    case False
    with Cons.prems(2) have "b \<in> set bs" by simp
    from Cons.IH [OF rest this] show ?thesis by simp
  qed
qed

lemma unat_split_ptr:
  fixes p sz bsz :: "64 word"
  assumes "sz < bsz" "unat p + unat bsz \<le> 2 ^ 64"
  shows "unat (p + sz) = unat p + unat sz"
proof -
  from assms(1) have "unat sz < unat bsz" by (simp add: word_less_nat_alt)
  with assms(2) have "unat p + unat sz < 2 ^ LENGTH(64)" by simp
  then show ?thesis by (simp only: unat_add_lem)
qed

lemma unat_split_rest:
  fixes sz bsz :: "64 word"
  assumes "sz < bsz"
  shows "unat sz + unat (bsz - sz) = unat bsz"
proof -
  from assms have le: "sz \<le> bsz" by simp
  then have "unat sz \<le> unat bsz" by (simp add: word_le_nat_alt)
  with unat_sub [OF le] show ?thesis by simp
qed

lemma alloc_walk_covers:
  "covers a bs e \<Longrightarrow> e \<le> 2 ^ 64 \<Longrightarrow> alloc_walk sz new_ok bs = (p, out, bs') \<Longrightarrow>
   covers a bs' e"
proof (induction bs arbitrary: a p out bs')
  case Nil
  then show ?case by simp
next
  case (Cons c bs)
  from Cons.prems(1) have c: "unat (data_ptr c) = a"
    and rest: "covers (a + unat (block_size c)) bs e" by simp_all
  show ?case
  proof (cases "is_available c \<and> sz \<le> block_size c")
    case fit: True
    show ?thesis
    proof (cases "sz < block_size c")
      case True
      from covers_le [OF rest] Cons.prems(2) c
      have "unat (data_ptr c) + unat (block_size c) \<le> 2 ^ 64" by simp
      from unat_split_ptr [OF True this] c
      have p: "unat (data_ptr c + sz) = a + unat sz" by simp
      from rest unat_split_rest [OF True]
      have "covers (a + unat sz + unat (block_size c - sz)) bs e"
        by (simp add: add.assoc)
      with p c have new: "covers a
          (c\<lparr>block_size := sz, is_available := False\<rparr>
           # \<lparr>block_size = block_size c - sz, is_available = True,
               data_ptr = data_ptr c + sz\<rparr> # bs) e"
        by simp
      show ?thesis
      proof (cases new_ok)
        case True
        with Cons.prems(3) fit \<open>sz < block_size c\<close>
        have "bs' = c\<lparr>block_size := sz, is_available := False\<rparr>
           # \<lparr>block_size = block_size c - sz, is_available = True,
               data_ptr = data_ptr c + sz\<rparr> # bs" by auto
        with new show ?thesis by simp
      next
        case False
        with Cons.prems(3) fit \<open>sz < block_size c\<close> have "bs' = c # bs" by auto
        with Cons.prems(1) show ?thesis by simp
      qed
    next
      case False
      with fit Cons.prems show ?thesis by auto
    qed
  next
    case False
    with Cons.prems(3) obtain r where r: "alloc_walk sz new_ok bs = (p, out, r)"
      and bs': "bs' = c # r" by (auto split: prod.splits)
    from Cons.IH [OF rest Cons.prems(2) r] c bs' show ?thesis by simp
  qed
qed

lemma coalesce_covers:
  "covers a (cur # rest) e \<Longrightarrow> e < a + 2 ^ 64 \<Longrightarrow> covers a (coalesce cur rest) e"
proof (induction rest arbitrary: cur)
  case Nil
  then show ?case by simp
next
  case (Cons n rest)
  show ?case
  proof (cases "is_available n")
    case True
    let ?m = "cur\<lparr>block_size := block_size cur + block_size n\<rparr>"
    from Cons.prems(1) have cur: "unat (data_ptr cur) = a"
      and n: "unat (data_ptr n) = a + unat (block_size cur)"
      and rest: "covers (a + unat (block_size cur) + unat (block_size n)) rest e"
      by simp_all
    from covers_le [OF rest] Cons.prems(2)
    have "unat (block_size cur) + unat (block_size n) < 2 ^ LENGTH(64)" by simp
    then have "unat (block_size cur + block_size n) = unat (block_size cur) + unat (block_size n)"
      by (simp only: unat_add_lem)
    with cur rest have "covers a (?m # rest) e" by (simp add: add.assoc)
    from Cons.IH [OF this Cons.prems(2)] True show ?thesis by simp
  next
    case False
    with Cons.prems show ?thesis by simp
  qed
qed

lemma free_walk_covers:
  "covers a bs e \<Longrightarrow> e < a + 2 ^ 64 \<Longrightarrow> covers a (snd (free_walk ptr bs)) e"
proof (induction bs arbitrary: a)
  case Nil
  then show ?case by simp
next
  case (Cons c bs)
  from Cons.prems(1) have c: "unat (data_ptr c) = a"
    and rest: "covers (a + unat (block_size c)) bs e" by simp_all
  show ?case
  proof (cases "data_ptr c = ptr")
    case True
    show ?thesis
    proof (cases "is_available c")
      case av: True
      with True Cons.prems show ?thesis by simp
    next
      case False
      from Cons.prems(1) have "covers a (c\<lparr>is_available := True\<rparr> # bs) e" by simp
      from coalesce_covers [OF this Cons.prems(2)] True False show ?thesis by simp
    qed
  next
    case False
    from Cons.prems(2) have "e < a + unat (block_size c) + 2 ^ 64" by simp
    from Cons.IH [OF rest this] False c show ?thesis
      by (cases "free_walk ptr bs") simp
  qed
qed

lemma alloc_walk_nonempty: "bs \<noteq> [] \<Longrightarrow> snd (snd (alloc_walk sz new_ok bs)) \<noteq> []"
  by (cases bs) (auto split: prod.splits)

lemma coalesce_nonempty: "coalesce cur rest \<noteq> []"
  by (induction rest arbitrary: cur) auto

lemma free_walk_nonempty: "bs \<noteq> [] \<Longrightarrow> snd (free_walk ptr bs) \<noteq> []"
  by (cases bs) (auto simp: coalesce_nonempty split: prod.splits)

subsection \<open>What the calls leave alone\<close>

lemma mem_alloc_fields:
  "pool_start (snd (mem_alloc sz new_ok st)) = pool_start st"
  "total_pool_size (snd (mem_alloc sz new_ok st)) = total_pool_size st"
  "memory (snd (mem_alloc sz new_ok st)) = memory st"
  "pool_head (snd (mem_alloc sz new_ok st)) = snd (snd (alloc_walk sz new_ok (pool_head st)))"
  by (simp_all add: mem_alloc_def split: prod.splits)

lemma mem_free_fields:
  "pool_start (mem_free ptr st) = pool_start st"
  "total_pool_size (mem_free ptr st) = total_pool_size st"
  "memory (mem_free ptr st) = memory st"
  by (simp_all add: mem_free_def split: prod.splits)

lemma mem_free_head:
  "pool_head (mem_free ptr st) =
     (if ptr = NULL then pool_head st else snd (free_walk ptr (pool_head st)))"
  by (simp add: mem_free_def split: prod.splits)

subsection \<open>Every call keeps an initialized pool initialized\<close>

lemma pool_inv_head:
  assumes "pool_inv st"
    and "pool_start st' = pool_start st" "total_pool_size st' = total_pool_size st"
    and "pool_head st' \<noteq> []"
    and "covers (unat (pool_start st)) (pool_head st')
           (unat (pool_start st) + unat (total_pool_size st))"
  shows "pool_inv st'"
  using assms by (simp add: pool_inv_def)

lemma mem_alloc_inv:
  assumes "pool_inv st"
  shows "pool_inv (snd (mem_alloc sz new_ok st))"
proof (rule pool_inv_head [OF assms])
  let ?a = "unat (pool_start st)" and ?e = "unat (pool_start st) + unat (total_pool_size st)"
  from assms have c: "covers ?a (pool_head st) ?e" and e: "?e \<le> 2 ^ 64"
    and ne: "pool_head st \<noteq> []" by (simp_all add: pool_inv_def)
  obtain p out bs where w: "alloc_walk sz new_ok (pool_head st) = (p, out, bs)"
    by (cases "alloc_walk sz new_ok (pool_head st)") auto
  from alloc_walk_covers [OF c e w] w
  show "covers ?a (pool_head (snd (mem_alloc sz new_ok st))) ?e"
    by (simp add: mem_alloc_fields)
  from alloc_walk_nonempty [OF ne]
  show "pool_head (snd (mem_alloc sz new_ok st)) \<noteq> []"
    by (simp add: mem_alloc_fields)
qed (simp_all add: mem_alloc_fields)

lemma mem_free_inv:
  assumes "pool_inv st"
  shows "pool_inv (mem_free ptr st)"
proof (rule pool_inv_head [OF assms])
  let ?a = "unat (pool_start st)" and ?e = "unat (pool_start st) + unat (total_pool_size st)"
  from assms have c: "covers ?a (pool_head st) ?e"
    and ne: "pool_head st \<noteq> []" by (simp_all add: pool_inv_def)
  have "unat (total_pool_size st) < 2 ^ LENGTH(64)" by (rule unsigned_less)
  then have e: "?e < ?a + 2 ^ 64" by simp
  from free_walk_covers [OF c e] c
  show "covers ?a (pool_head (mem_free ptr st)) ?e"
    by (simp add: mem_free_head)
  from free_walk_nonempty [OF ne] ne
  show "pool_head (mem_free ptr st) \<noteq> []"
    by (simp add: mem_free_head)
qed (simp_all add: mem_free_fields)

lemma pool_inv_memory: "pool_inv (st\<lparr>memory := m\<rparr>) = pool_inv st"
  by (simp add: pool_inv_def)

lemma pool_inv_stderr: "pool_inv (st\<lparr>stderr := m\<rparr>) = pool_inv st"
  by (simp add: pool_inv_def)

lemma mem_resize_inv:
  assumes "pool_inv st"
  shows "pool_inv (snd (mem_resize ptr sz new_ok st))"
proof (cases "ptr = NULL")
  case True
  with mem_alloc_inv [OF assms] show ?thesis by (simp add: mem_resize_def)
next
  case False
  show ?thesis
  proof (cases "find (\<lambda>b. data_ptr b = ptr) (pool_head st)")
    case None
    with False assms show ?thesis by (simp add: mem_resize_def pool_inv_stderr)
  next
    case (Some block)
    show ?thesis
    proof (cases "sz \<le> block_size block")
      case True
      with False Some assms show ?thesis by (simp add: mem_resize_def)
    next
      case small: False
      obtain new_ptr st1 where a: "mem_alloc sz new_ok st = (new_ptr, st1)"
        by (cases "mem_alloc sz new_ok st") auto
      with mem_alloc_inv [OF assms, of sz new_ok] have st1: "pool_inv st1" by simp
      then have "pool_inv (mem_free ptr
          (st1\<lparr>memory := memcpy new_ptr ptr (block_size block) (memory st1)\<rparr>))"
        by (intro mem_free_inv) (simp add: pool_inv_memory)
      with st1 False Some small a show ?thesis by (simp add: mem_resize_def)
    qed
  qed
qed

lemma exec_inv: "pool_inv st \<Longrightarrow> pool_inv (exec c st)"
  by (cases c) (simp_all add: mem_alloc_inv mem_free_inv mem_resize_inv)

lemma run_inv: "pool_inv st \<Longrightarrow> pool_inv (run cs st)"
  by (induction cs arbitrary: st) (simp_all add: exec_inv)

lemma mem_init_inv:
  assumes "malloc_post arena pool_size" "mem_init pool_size arena head_ok st0 = Inr st"
  shows "pool_inv st"
  using assms
  by (auto simp: mem_init_def malloc_post_def pool_inv_def split: if_splits)

lemma mem_resize_fields:
  "pool_start (snd (mem_resize ptr sz new_ok st)) = pool_start st"
  "total_pool_size (snd (mem_resize ptr sz new_ok st)) = total_pool_size st"
  by (auto simp: mem_resize_def mem_alloc_def mem_free_def split: prod.splits option.splits)

lemma exec_fields:
  "pool_start (exec c st) = pool_start st"
  "total_pool_size (exec c st) = total_pool_size st"
  by (cases c; simp add: mem_alloc_fields mem_free_fields mem_resize_fields)+

lemma run_fields:
  "pool_start (run cs st) = pool_start st \<and> total_pool_size (run cs st) = total_pool_size st"
  by (induction cs arbitrary: st) (simp_all add: exec_fields)

subsection \<open>The first record with a given address\<close>

lemma coalesce_head:
  "\<exists>n rest'. coalesce cur rest = cur\<lparr>block_size := n\<rparr> # rest'"
proof (induction rest arbitrary: cur)
  case Nil
  have "coalesce cur [] = cur\<lparr>block_size := block_size cur\<rparr> # []" by simp
  then show ?case by blast
next
  case (Cons n rest)
  show ?case
  proof (cases "is_available n")
    case True
    from Cons.IH [of "cur\<lparr>block_size := block_size cur + block_size n\<rparr>"] True
    show ?thesis by auto
  next
    case False
    then have "coalesce cur (n # rest) = cur\<lparr>block_size := block_size cur\<rparr> # n # rest"
      by simp
    then show ?thesis by blast
  qed
qed

lemma free_walk_not_found:
  "\<forall>b\<in>set bs. data_ptr b \<noteq> ptr \<Longrightarrow> free_walk ptr bs = ([Warn_not_from_pool ptr], bs)"
  by (induction bs) auto

lemma free_walk_already_free:
  "find (\<lambda>b. data_ptr b = ptr) bs = Some b \<Longrightarrow> is_available b \<Longrightarrow>
   free_walk ptr bs = ([Warn_already_free ptr], bs)"
  by (induction bs) (auto split: if_splits)

lemma free_walk_marks:
  "find (\<lambda>b. data_ptr b = ptr) bs = Some b \<Longrightarrow>
   \<exists>b'. find (\<lambda>b. data_ptr b = ptr) (snd (free_walk ptr bs)) = Some b' \<and> is_available b'"
proof (induction bs)
  case Nil
  then show ?case by simp
next
  case (Cons c bs)
  show ?case
  proof (cases "data_ptr c = ptr")
    case True
    show ?thesis
    proof (cases "is_available c")
      case av: True
      with True show ?thesis by simp
    next
      case False
      from coalesce_head [of "c\<lparr>is_available := True\<rparr>" bs]
      obtain n rest' where "coalesce (c\<lparr>is_available := True\<rparr>) bs
          = c\<lparr>is_available := True, block_size := n\<rparr> # rest'" by auto
      with True False show ?thesis by simp
    qed
  next
    case False
    with Cons show ?thesis by (cases "free_walk ptr bs") auto
  qed
qed

lemma mem_free_twice:
  assumes "ptr \<noteq> NULL" "find (\<lambda>b. data_ptr b = ptr) (pool_head st) = Some b"
  shows "mem_free ptr (mem_free ptr st)
         = (mem_free ptr st)\<lparr>stderr := stderr (mem_free ptr st) @ [Warn_already_free ptr]\<rparr>"
proof -
  let ?st = "mem_free ptr st"
  from free_walk_marks [OF assms(2)] assms(1)
  obtain b' where "find (\<lambda>b. data_ptr b = ptr) (pool_head ?st) = Some b'" "is_available b'"
    by (auto simp: mem_free_head)
  from free_walk_already_free [OF this] assms(1) show ?thesis
    by (simp add: mem_free_def [of ptr ?st])
qed

subsection \<open>The order of the start addresses\<close>

lemma covers_sorted: "covers a bs e \<Longrightarrow> sorted (starts bs)"
proof (induction bs arbitrary: a)
  case Nil
  then show ?case by (simp add: starts_def)
next
  case (Cons c bs)
  from Cons.prems have c: "unat (data_ptr c) = a"
    and rest: "covers (a + unat (block_size c)) bs e" by simp_all
  from covers_bounds [OF rest] c have "\<forall>b\<in>set bs. unat (data_ptr c) \<le> unat (data_ptr b)"
    by fastforce
  with Cons.IH [OF rest] show ?case by (simp add: starts_def)
qed

lemma coalesce_starts:
  "set (starts (coalesce cur rest)) \<subseteq> set (starts (cur # rest))"
proof (induction rest arbitrary: cur)
  case Nil
  then show ?case by simp
next
  case (Cons n rest)
  show ?case
  proof (cases "is_available n")
    case True
    have "set (starts (cur\<lparr>block_size := block_size cur + block_size n\<rparr> # rest))
          \<subseteq> set (starts (cur # n # rest))"
      by (auto simp: starts_def)
    with Cons.IH [of "cur\<lparr>block_size := block_size cur + block_size n\<rparr>"] True
    show ?thesis by auto
  next
    case False
    then show ?thesis by simp
  qed
qed

lemma coalesce_strict:
  "sorted_wrt (<) (starts (cur # rest)) \<Longrightarrow> sorted_wrt (<) (starts (coalesce cur rest))"
proof (induction rest arbitrary: cur)
  case Nil
  then show ?case by (simp add: starts_def)
next
  case (Cons n rest)
  show ?case
  proof (cases "is_available n")
    case True
    from Cons.prems
    have "sorted_wrt (<) (starts (cur\<lparr>block_size := block_size cur + block_size n\<rparr> # rest))"
      by (simp add: starts_def)
    from Cons.IH [OF this] True show ?thesis by simp
  next
    case False
    with Cons.prems show ?thesis by simp
  qed
qed

lemma free_walk_starts:
  "set (starts (snd (free_walk ptr bs))) \<subseteq> set (starts bs)"
proof (induction bs)
  case Nil
  then show ?case by simp
next
  case (Cons c bs)
  show ?case
  proof (cases "data_ptr c = ptr \<and> \<not> is_available c")
    case True
    from coalesce_starts [of "c\<lparr>is_available := True\<rparr>" bs] True
    show ?thesis by (simp add: starts_def)
  next
    case False
    with Cons show ?thesis
      by (cases "free_walk ptr bs") (auto simp: starts_def)
  qed
qed

lemma free_walk_strict:
  "sorted_wrt (<) (starts bs) \<Longrightarrow> sorted_wrt (<) (starts (snd (free_walk ptr bs)))"
proof (induction bs)
  case Nil
  then show ?case by simp
next
  case (Cons c bs)
  show ?case
  proof (cases "data_ptr c = ptr")
    case True
    show ?thesis
    proof (cases "is_available c")
      case av: True
      with True Cons.prems show ?thesis by simp
    next
      case False
      from Cons.prems have "sorted_wrt (<) (starts (c\<lparr>is_available := True\<rparr> # bs))"
        by (simp add: starts_def)
      from coalesce_strict [OF this] True False show ?thesis by simp
    qed
  next
    case False
    obtain out r where r: "free_walk ptr bs = (out, r)" by (cases "free_walk ptr bs") auto
    from Cons.prems have above: "\<forall>y\<in>set (starts bs). unat (data_ptr c) < y"
      and "sorted_wrt (<) (starts bs)" by (simp_all add: starts_def)
    from Cons.IH [OF this(2)] r have "sorted_wrt (<) (starts r)" by simp
    moreover from free_walk_starts [of ptr bs] r above
    have "\<forall>y\<in>set (starts r). unat (data_ptr c) < y" by auto
    ultimately show ?thesis using False r by (simp add: starts_def)
  qed
qed

lemma alloc_walk_strict:
  "covers a bs e \<Longrightarrow> e \<le> 2 ^ 64 \<Longrightarrow> sz \<noteq> 0 \<Longrightarrow> sorted_wrt (<) (starts bs) \<Longrightarrow>
   alloc_walk sz new_ok bs = (p, out, bs') \<Longrightarrow> sorted_wrt (<) (starts bs')"
proof (induction bs arbitrary: a p out bs')
  case Nil
  then show ?case by simp
next
  case (Cons c bs)
  from Cons.prems(1) have c: "unat (data_ptr c) = a"
    and rest: "covers (a + unat (block_size c)) bs e" by simp_all
  from Cons.prems(4) have above: "\<forall>b\<in>set bs. a < unat (data_ptr b)"
    and sorted_rest: "sorted_wrt (<) (starts bs)" using c by (simp_all add: starts_def)
  show ?case
  proof (cases "is_available c \<and> sz \<le> block_size c")
    case fit: True
    show ?thesis
    proof (cases "sz < block_size c \<and> new_ok")
      case True
      then have lt: "sz < block_size c" and new_ok by simp_all
      from covers_le [OF rest] Cons.prems(2) c
      have "unat (data_ptr c) + unat (block_size c) \<le> 2 ^ 64" by simp
      from unat_split_ptr [OF lt this] c
      have p: "unat (data_ptr c + sz) = a + unat sz" by simp
      from Cons.prems(3) have pos: "0 < unat sz" by (simp add: unat_gt_0)
      from lt have "unat sz < unat (block_size c)" by (simp add: word_less_nat_alt)
      with covers_bounds [OF rest]
      have "\<forall>b\<in>set bs. a + unat sz < unat (data_ptr b)" by fastforce
      with p pos c above sorted_rest
      have "sorted_wrt (<) (starts
          (c\<lparr>block_size := sz, is_available := False\<rparr>
           # \<lparr>block_size = block_size c - sz, is_available = True,
               data_ptr = data_ptr c + sz\<rparr> # bs))"
        by (simp add: starts_def)
      moreover from Cons.prems(5) fit lt \<open>new_ok\<close>
      have "bs' = c\<lparr>block_size := sz, is_available := False\<rparr>
           # \<lparr>block_size = block_size c - sz, is_available = True,
               data_ptr = data_ptr c + sz\<rparr> # bs" by auto
      ultimately show ?thesis by simp
    next
      case False
      with Cons.prems(5) fit
      have "bs' = c # bs \<or> bs' = c\<lparr>is_available := False\<rparr> # bs"
        by (auto split: if_splits)
      with Cons.prems(4) show ?thesis by (auto simp: starts_def)
    qed
  next
    case False
    with Cons.prems(5) obtain r where r: "alloc_walk sz new_ok bs = (p, out, r)"
      and bs': "bs' = c # r" by (auto split: prod.splits)
    from Cons.IH [OF rest Cons.prems(2,3) sorted_rest r]
    have sr: "sorted_wrt (<) (starts r)" .
    have "\<forall>b\<in>set r. a < unat (data_ptr b)"
    proof (cases bs)
      case Nil
      with r show ?thesis by simp
    next
      case (Cons d ds)
      with rest above have "a < a + unat (block_size c)" by simp
      with covers_bounds [OF alloc_walk_covers [OF rest Cons.prems(2) r]]
      show ?thesis by fastforce
    qed
    with sr c bs' show ?thesis by (simp add: starts_def)
  qed
qed

lemma mem_alloc_strict:
  assumes "pool_inv st" "sz \<noteq> 0" "sorted_wrt (<) (starts (pool_head st))"
  shows "sorted_wrt (<) (starts (pool_head (snd (mem_alloc sz new_ok st))))"
proof -
  let ?a = "unat (pool_start st)" and ?e = "unat (pool_start st) + unat (total_pool_size st)"
  from assms(1) have c: "covers ?a (pool_head st) ?e" and e: "?e \<le> 2 ^ 64"
    by (simp_all add: pool_inv_def)
  obtain p out bs where w: "alloc_walk sz new_ok (pool_head st) = (p, out, bs)"
    by (cases "alloc_walk sz new_ok (pool_head st)") auto
  from alloc_walk_strict [OF c e assms(2,3) w] w show ?thesis
    by (simp add: mem_alloc_fields)
qed

lemma mem_free_strict:
  assumes "sorted_wrt (<) (starts (pool_head st))"
  shows "sorted_wrt (<) (starts (pool_head (mem_free ptr st)))"
  using assms free_walk_strict [OF assms, of ptr] by (simp add: mem_free_head)

lemma mem_resize_strict:
  assumes "pool_inv st" "\<not> (ptr = NULL \<and> sz = 0)" "sorted_wrt (<) (starts (pool_head st))"
  shows "sorted_wrt (<) (starts (pool_head (snd (mem_resize ptr sz new_ok st))))"
proof (cases "ptr = NULL")
  case True
  with assms(2) have "sz \<noteq> 0" by simp
  from mem_alloc_strict [OF assms(1) this assms(3)] True show ?thesis
    by (simp add: mem_resize_def)
next
  case False
  show ?thesis
  proof (cases "find (\<lambda>b. data_ptr b = ptr) (pool_head st)")
    case None
    with False assms(3) show ?thesis by (simp add: mem_resize_def)
  next
    case (Some block)
    show ?thesis
    proof (cases "sz \<le> block_size block")
      case True
      with False Some assms(3) show ?thesis by (simp add: mem_resize_def)
    next
      case small: False
      then have "sz \<noteq> 0" by auto
      obtain new_ptr st1 where a: "mem_alloc sz new_ok st = (new_ptr, st1)"
        by (cases "mem_alloc sz new_ok st") auto
      with mem_alloc_strict [OF assms(1) \<open>sz \<noteq> 0\<close> assms(3), of new_ok]
      have st1: "sorted_wrt (<) (starts (pool_head st1))" by simp
      then have "sorted_wrt (<) (starts (pool_head
          (st1\<lparr>memory := memcpy new_ptr ptr (block_size block) (memory st1)\<rparr>)))"
        by simp
      from mem_free_strict [OF this]
      have "sorted_wrt (<) (starts (pool_head (mem_free ptr
          (st1\<lparr>memory := memcpy new_ptr ptr (block_size block) (memory st1)\<rparr>))))" .
      with st1 False Some small a show ?thesis by (simp add: mem_resize_def)
    qed
  qed
qed

lemma exec_strict:
  assumes "pool_inv st" "\<not> asks_zero c" "sorted_wrt (<) (starts (pool_head st))"
  shows "sorted_wrt (<) (starts (pool_head (exec c st)))"
proof (cases c)
  case (Alloc sz new_ok)
  with assms show ?thesis by (simp add: mem_alloc_strict)
next
  case (Free ptr)
  with assms show ?thesis by (simp add: mem_free_strict)
next
  case (Resize ptr sz new_ok)
  with assms show ?thesis by (simp add: mem_resize_strict)
qed

lemma run_strict:
  "pool_inv st \<Longrightarrow> \<forall>c\<in>set cs. \<not> asks_zero c \<Longrightarrow> sorted_wrt (<) (starts (pool_head st)) \<Longrightarrow>
   sorted_wrt (<) (starts (pool_head (run cs st)))"
  by (induction cs arbitrary: st) (simp_all add: exec_strict exec_inv)

lemma mem_init_state:
  assumes "mem_init pool_size arena head_ok st0 = Inr st"
  shows "pool_start st = arena" "total_pool_size st = pool_size"
    "pool_head st = [\<lparr>block_size = pool_size, is_available = True, data_ptr = arena\<rparr>]"
  using assms by (auto simp: mem_init_def split: if_splits)

lemma alloc_walk_ptr:
  "fst (alloc_walk sz new_ok bs) =
     (case find (fits sz) bs of None \<Rightarrow> NULL
      | Some b \<Rightarrow> if sz < block_size b \<and> \<not> new_ok then NULL else data_ptr b)"
  by (induction bs) (auto simp: fits_def split: prod.splits)

lemma first_fit_lowest:
  assumes "covers a bs e" "find (fits sz) bs = Some b" "b' \<in> set bs" "fits sz b'"
  shows "unat (data_ptr b) \<le> unat (data_ptr b')"
proof -
  from find_split [OF assms(2)] obtain xs ys
    where bs: "bs = xs @ b # ys" and xs: "\<forall>x\<in>set xs. \<not> fits sz x" by blast
  from assms(1) bs obtain m where "covers m (b # ys) e"
    by (auto simp: covers_append)
  then have b: "unat (data_ptr b) = m" and ys: "covers (m + unat (block_size b)) ys e"
    by simp_all
  from assms(3,4) bs xs have "b' = b \<or> b' \<in> set ys" by auto
  then show ?thesis
  proof
    assume "b' = b"
    then show ?thesis by simp
  next
    assume "b' \<in> set ys"
    from covers_bounds [OF ys this] b show ?thesis by simp
  qed
qed

subsection \<open>What a successful walk writes\<close>

lemma coalesce_run:
  "\<forall>f\<in>set fs. is_available f \<Longrightarrow> rest = [] \<or> \<not> is_available (hd rest) \<Longrightarrow>
   coalesce cur (fs @ rest)
   = cur\<lparr>block_size := block_size cur + sum_list (map block_size fs)\<rparr> # rest"
proof (induction fs arbitrary: cur)
  case Nil
  then show ?case by (cases rest) auto
next
  case (Cons f fs)
  from Cons.prems have "is_available f" and "\<forall>f\<in>set fs. is_available f" by simp_all
  with Cons.IH [OF this(2) Cons.prems(2), of "cur\<lparr>block_size := block_size cur + block_size f\<rparr>"]
  show ?case by (simp add: add.assoc)
qed

lemma free_walk_found:
  "\<forall>x\<in>set xs. data_ptr x \<noteq> ptr \<Longrightarrow> data_ptr b = ptr \<Longrightarrow> \<not> is_available b \<Longrightarrow>
   free_walk ptr (xs @ b # ys) = ([], xs @ coalesce (b\<lparr>is_available := True\<rparr>) ys)"
  by (induction xs) auto

lemma covers_sum:
  "covers a (fs @ rest) e \<Longrightarrow> a + sum_list (map (\<lambda>f. unat (block_size f)) fs) \<le> e"
proof (induction fs arbitrary: a)
  case Nil
  then show ?case by (simp add: covers_le)
next
  case (Cons f fs)
  then have "covers (a + unat (block_size f)) (fs @ rest) e" by simp
  from Cons.IH [OF this] show ?case by (simp add: add.assoc)
qed

lemma unat_sum_sizes:
  fixes n :: size_t
  shows "unat n + sum_list (map (\<lambda>f. unat (block_size f)) fs) < 2 ^ 64 \<Longrightarrow>
   unat (n + sum_list (map block_size fs))
   = unat n + sum_list (map (\<lambda>f. unat (block_size f)) fs)"
proof (induction fs arbitrary: n)
  case Nil
  then show ?case by simp
next
  case (Cons f fs)
  from Cons.prems have "unat n + unat (block_size f) < 2 ^ LENGTH(64)" by simp
  then have nf: "unat (n + block_size f) = unat n + unat (block_size f)"
    by (simp only: unat_add_lem)
  with Cons.prems
  have "unat (n + block_size f) + sum_list (map (\<lambda>f. unat (block_size f)) fs) < 2 ^ 64"
    by simp
  from Cons.IH [OF this] nf show ?case by (simp add: add.assoc)
qed

lemma pool_frag_run:
  "run [Alloc 10 True, Free 4126] pool_abc = pool_frag"
  by (simp add: pool_abc_def pool_frag_def mem_alloc_def mem_free_def NULL_def)

lemma pool_frag_inv: "pool_inv pool_frag"
  by (simp add: pool_inv_def pool_frag_def NULL_def)

subsection \<open>The block that \<open>mem_resize\<close> copies into\<close>

lemma covers_ptr_not_null:
  assumes "covers a bs e" "0 < a" "b \<in> set bs"
  shows "data_ptr b \<noteq> NULL"
proof
  assume "data_ptr b = NULL"
  then have "unat (data_ptr b) = 0" by (simp add: NULL_def)
  with covers_bounds [OF assms(1,3)] assms(2) show False by simp
qed

lemma pool_inv_ptr_not_null:
  assumes "pool_inv st" "b \<in> set (pool_head st)"
  shows "data_ptr b \<noteq> NULL"
proof -
  from assms(1) have "pool_start st \<noteq> 0"
    and c: "covers (unat (pool_start st)) (pool_head st)
              (unat (pool_start st) + unat (total_pool_size st))"
    by (simp_all add: pool_inv_def NULL_def)
  then have "0 < unat (pool_start st)" by (simp add: unat_gt_0)
  from covers_ptr_not_null [OF c this assms(2)] show ?thesis .
qed

lemma alloc_walk_null:
  "\<forall>b\<in>set bs. data_ptr b \<noteq> NULL \<Longrightarrow> alloc_walk sz new_ok bs = (NULL, out, bs') \<Longrightarrow> bs' = bs"
proof (induction bs arbitrary: out bs')
  case Nil
  then show ?case by simp
next
  case (Cons c bs)
  from Cons.prems(1) have c: "data_ptr c \<noteq> NULL" and rest: "\<forall>b\<in>set bs. data_ptr b \<noteq> NULL"
    by simp_all
  show ?case
  proof (cases "is_available c \<and> sz \<le> block_size c")
    case True
    with Cons.prems(2) c show ?thesis by (auto split: if_splits)
  next
    case False
    with Cons.prems(2) obtain r where r: "alloc_walk sz new_ok bs = (NULL, out, r)"
      and bs': "bs' = c # r" by (auto split: prod.splits)
    from Cons.IH [OF rest r] bs' show ?thesis by simp
  qed
qed

lemma alloc_walk_keeps_ptrs:
  "data_ptr ` set bs \<subseteq> data_ptr ` set (snd (snd (alloc_walk sz new_ok bs)))"
proof (induction bs)
  case Nil
  then show ?case by simp
next
  case (Cons c bs)
  show ?case
  proof (cases "is_available c \<and> sz \<le> block_size c")
    case True
    then show ?thesis by auto
  next
    case False
    with Cons show ?thesis by (cases "alloc_walk sz new_ok bs") auto
  qed
qed

lemma find_Some_ex: "(\<exists>b. find P bs = Some b) = (\<exists>b\<in>set bs. P b)"
  using find_None_iff [of P bs] by (cases "find P bs") auto

lemma alloc_walk_keeps_find:
  assumes "find (\<lambda>b. data_ptr b = ptr) bs = Some b"
  shows "\<exists>b'. find (\<lambda>b. data_ptr b = ptr) (snd (snd (alloc_walk sz new_ok bs))) = Some b'"
proof -
  from assms have "\<exists>b\<in>set bs. data_ptr b = ptr" using find_Some_ex [of _ bs] by blast
  with alloc_walk_keeps_ptrs [of bs sz new_ok]
  have "\<exists>b\<in>set (snd (snd (alloc_walk sz new_ok bs))). data_ptr b = ptr" by force
  then show ?thesis using find_Some_ex [of "\<lambda>b. data_ptr b = ptr"] by blast
qed

lemma fresh_block_disjoint:
  assumes "covers a bs e" "e \<le> 2 ^ 64"
    and "find (\<lambda>b. data_ptr b = ptr) bs = Some block" "block_size block < sz"
    and "find (fits sz) bs = Some c"
  shows "regions_disjoint (data_ptr c) ptr (block_size block)"
proof -
  from find_split [OF assms(5)] obtain xs ys
    where bs: "bs = xs @ c # ys" and c: "fits sz c" by blast
  from find_split [OF assms(3)] have blk: "block \<in> set bs" "data_ptr block = ptr" by auto
  from c assms(4) have small: "unat (block_size block) < unat (block_size c)"
    by (auto simp: fits_def word_less_nat_alt word_le_nat_alt)
  then have "block \<noteq> c" by auto
  with blk(1) bs have pos: "block \<in> set xs \<or> block \<in> set ys" by auto
  from assms(1) bs obtain m where xs: "covers a xs m" and "covers m (c # ys) e"
    by (auto simp: covers_append)
  then have m: "unat (data_ptr c) = m" and ys: "covers (m + unat (block_size c)) ys e"
    by simp_all
  from covers_le [OF ys] assms(2) m
  have c_end: "unat (data_ptr c) + unat (block_size c) \<le> 2 ^ 64" by simp
  from covers_bounds [OF assms(1) blk(1)] assms(2) blk(2)
  have b_end: "unat ptr + unat (block_size block) \<le> 2 ^ 64" by simp
  from pos show ?thesis
  proof
    assume "block \<in> set xs"
    from covers_bounds [OF xs this] blk(2) m
    have "unat ptr + unat (block_size block) \<le> unat (data_ptr c)" by simp
    with small c_end b_end show ?thesis by (simp add: regions_disjoint_def)
  next
    assume "block \<in> set ys"
    from covers_bounds [OF ys this] blk(2) m
    have "unat (data_ptr c) + unat (block_size c) \<le> unat ptr" by simp
    with small c_end b_end show ?thesis by (simp add: regions_disjoint_def)
  qed
qed

lemma memcpy_copied: "i < n \<Longrightarrow> memcpy dst src n m (dst + i) = m (src + i)"
  by (simp add: memcpy_def)

lemma memcpy_other: "\<not> a - dst < n \<Longrightarrow> memcpy dst src n m a = m a"
  by (simp add: memcpy_def)

section \<open>The claims\<close>

lemma pool_100_init: "mem_init 100 4096 True startup = Inr pool_100"
  by (simp add: mem_init_def startup_def pool_100_def NULL_def)

lemma pool_abc_run:
  "run [Alloc 30 True, Alloc 20 True, Free 4096] pool_100 = pool_abc"
  by (simp add: pool_100_def pool_abc_def mem_alloc_def mem_free_def NULL_def)

lemma pool_100_inv: "pool_inv pool_100"
  by (simp add: pool_inv_def pool_100_def NULL_def)

lemma pool_abc_inv: "pool_inv pool_abc"
  by (simp add: pool_inv_def pool_abc_def NULL_def)

text \<open>
  C1, as amended. From \<open>mem_init\<close> on, after any sequence of \<open>mem_alloc\<close>, \<open>mem_free\<close>
  and \<open>mem_resize\<close>, the records tile the arena: the first starts at the arena's
  base, each next one starts where the one before ends, the last one ends at the
  base plus \<open>total_pool_size\<close>, and neither global has changed. The start addresses
  never decrease along the list, and they increase strictly when no call has asked
  \<open>mem_alloc\<close> for 0 bytes.
\<close>

theorem partition_kept:
  assumes "malloc_post arena pool_size"
    and "mem_init pool_size arena head_ok st0 = Inr st"
  shows "pool_start (run cs st) = arena \<and> total_pool_size (run cs st) = pool_size \<and>
         pool_head (run cs st) \<noteq> [] \<and>
         covers (unat arena) (pool_head (run cs st)) (unat arena + unat pool_size) \<and>
         sorted (starts (pool_head (run cs st))) \<and>
         ((\<forall>c\<in>set cs. \<not> asks_zero c) \<longrightarrow> sorted_wrt (<) (starts (pool_head (run cs st))))"
proof -
  from mem_init_inv [OF assms] have inv: "pool_inv st" .
  from run_inv [OF inv] have after: "pool_inv (run cs st)" .
  from run_fields [of cs st] mem_init_state [OF assms(2)]
  have fields: "pool_start (run cs st) = arena" "total_pool_size (run cs st) = pool_size"
    by simp_all
  from after fields
  have c: "covers (unat arena) (pool_head (run cs st)) (unat arena + unat pool_size)"
    and ne: "pool_head (run cs st) \<noteq> []"
    by (simp_all add: pool_inv_def)
  have "sorted_wrt (<) (starts (pool_head (run cs st)))" if "\<forall>c\<in>set cs. \<not> asks_zero c"
  proof -
    from mem_init_state [OF assms(2)] have "sorted_wrt (<) (starts (pool_head st))"
      by (simp add: starts_def)
    from run_strict [OF inv that this] show ?thesis .
  qed
  with fields c ne covers_sorted [OF c] show ?thesis by blast
qed

theorem partition_kept_witness:
  "covers 4096 (pool_head pool_abc) 4196 \<and> starts (pool_head pool_abc) = [4096, 4126, 4146] \<and>
   sorted_wrt (<) (starts (pool_head pool_abc))"
proof -
  let ?cs = "[Alloc 30 True, Alloc 20 True, Free 4096]"
  have m: "malloc_post 4096 100" by (simp add: malloc_post_def NULL_def)
  have z: "\<forall>c\<in>set ?cs. \<not> asks_zero c" by simp
  from partition_kept [OF m pool_100_init, of ?cs] z
  have "covers (unat (4096 :: addr)) (pool_head (run ?cs pool_100))
          (unat (4096 :: addr) + unat (100 :: size_t))"
    and "sorted_wrt (<) (starts (pool_head (run ?cs pool_100)))"
    by blast+
  then show ?thesis by (simp add: pool_abc_run) (simp add: pool_abc_def starts_def)
qed

text \<open>
  With a request for 0 bytes the start addresses do not increase strictly:
  \<open>mem_alloc(0)\<close> on the fresh pool splits off a record of size 0, which starts
  where the free record after it starts.
\<close>

theorem partition_strict_counterexample:
  "mem_init 100 4096 True startup = Inr pool_100 \<and>
   starts (pool_head (run [Alloc 0 True] pool_100)) = [4096, 4096] \<and>
   \<not> sorted_wrt (<) (starts (pool_head (run [Alloc 0 True] pool_100)))"
  by (simp add: pool_100_init)
     (simp add: pool_100_def mem_alloc_def starts_def)

text \<open>
  C2. After \<open>a = mem_alloc(30)\<close>, \<open>b = mem_alloc(20)\<close>, \<open>mem_free(a)\<close> and \<open>mem_free(b)\<close>
  on a fresh pool of 100 bytes, the list holds two free records next to each other,
  of 30 and 70 bytes: \<open>mem_free(b)\<close> merged \<open>b\<close> with the free record after it and left
  the free record before it alone. A request for 80 bytes then fails although all
  100 bytes are free.
\<close>

theorem mem_free_leaves_adjacent_free:
  "pool_head (run [Alloc 30 True, Alloc 20 True, Free 4096, Free 4126] pool_100)
     = [\<lparr>block_size = 30, is_available = True, data_ptr = 4096\<rparr>,
        \<lparr>block_size = 70, is_available = True, data_ptr = 4126\<rparr>] \<and>
   \<not> no_adjacent_free
       (pool_head (run [Alloc 30 True, Alloc 20 True, Free 4096, Free 4126] pool_100)) \<and>
   fst (mem_alloc 80 True
         (run [Alloc 30 True, Alloc 20 True, Free 4096, Free 4126] pool_100)) = NULL"
proof -
  have "run [Alloc 30 True, Alloc 20 True, Free 4096, Free 4126] pool_100
        = mem_free 4126 pool_abc"
    using pool_abc_run by simp
  then show ?thesis
    by (simp add: pool_abc_def mem_free_def mem_alloc_def NULL_def)
qed

text \<open>
  C3, as amended. \<open>mem_alloc\<close> is first fit: it returns the \<open>data_ptr\<close> of the first
  record of the list that is available and has at least the requested size, and
  that record starts at the lowest address of all records that fit. It returns
  \<open>NULL\<close> when no record fits, and also when the first fit has to be split and the
  record for the remainder cannot be had. The result is a function of the list,
  the size and that one answer of the system allocator.
\<close>

theorem mem_alloc_first_fit:
  assumes "pool_inv st"
  shows "fst (mem_alloc sz new_ok st) =
           (case find (fits sz) (pool_head st) of
              None \<Rightarrow> NULL
            | Some b \<Rightarrow> if sz < block_size b \<and> \<not> new_ok then NULL else data_ptr b) \<and>
         (\<forall>b b'. find (fits sz) (pool_head st) = Some b \<and> b' \<in> set (pool_head st) \<and> fits sz b'
            \<longrightarrow> unat (data_ptr b) \<le> unat (data_ptr b'))"
proof
  from alloc_walk_ptr [of sz new_ok "pool_head st"]
  show "fst (mem_alloc sz new_ok st) =
           (case find (fits sz) (pool_head st) of
              None \<Rightarrow> NULL
            | Some b \<Rightarrow> if sz < block_size b \<and> \<not> new_ok then NULL else data_ptr b)"
    by (cases "alloc_walk sz new_ok (pool_head st)") (simp add: mem_alloc_def)
next
  from assms have "covers (unat (pool_start st)) (pool_head st)
      (unat (pool_start st) + unat (total_pool_size st))"
    by (simp add: pool_inv_def)
  then show "\<forall>b b'. find (fits sz) (pool_head st) = Some b \<and> b' \<in> set (pool_head st) \<and> fits sz b'
      \<longrightarrow> unat (data_ptr b) \<le> unat (data_ptr b')"
    by (blast intro: first_fit_lowest)
qed

theorem mem_alloc_first_fit_witness:
  "fst (mem_alloc 40 True pool_abc) = 4146 \<and> fst (mem_alloc 10 True pool_abc) = 4096 \<and>
   fst (mem_alloc 60 True pool_abc) = NULL"
proof -
  from mem_alloc_first_fit [OF pool_abc_inv, of 40 True]
  have "fst (mem_alloc 40 True pool_abc) = 4146"
    by (simp add: pool_abc_def fits_def)
  moreover from mem_alloc_first_fit [OF pool_abc_inv, of 10 True]
  have "fst (mem_alloc 10 True pool_abc) = 4096"
    by (simp add: pool_abc_def fits_def)
  moreover from mem_alloc_first_fit [OF pool_abc_inv, of 60 True]
  have "fst (mem_alloc 60 True pool_abc) = NULL"
    by (simp add: pool_abc_def fits_def)
  ultimately show ?thesis by simp
qed

text \<open>
  The pointer returned is not a function of the list alone: on the fresh pool the
  first record fits a request for 30 bytes, and \<open>mem_alloc(30)\<close> returns \<open>NULL\<close> when
  the record for the remainder cannot be had, the arena's base otherwise.
\<close>

theorem first_fit_counterexample:
  "pool_inv pool_100 \<and>
   find (fits 30) (pool_head pool_100)
     = Some \<lparr>block_size = 100, is_available = True, data_ptr = 4096\<rparr> \<and>
   fst (mem_alloc 30 False pool_100) = 0 \<and>
   fst (mem_alloc 30 True pool_100) = 4096"
  by (simp add: pool_100_inv) (simp add: pool_100_def fits_def mem_alloc_def NULL_def)

text \<open>
  C4, as amended. Let \<open>b\<close> be the first record that fits. If \<open>b\<close> is larger than the
  request and the record for the remainder can be had, \<open>mem_alloc\<close> shrinks \<open>b\<close> to
  the requested size, marks it in use and links a new free record right after it,
  which starts \<open>sz\<close> bytes after \<open>b\<close> and has the bytes that are left; nothing wraps
  around. If \<open>b\<close> has exactly the requested size, \<open>b\<close> is marked in use and the list
  has no new record. In both cases the pointer returned is the \<open>data_ptr\<close> of \<open>b\<close>.
\<close>

theorem mem_alloc_split:
  assumes "pool_inv st" and "pool_head st = xs @ b # ys"
    and "\<forall>x\<in>set xs. \<not> fits sz x" and "fits sz b"
  shows "(sz < block_size b \<and> new_ok \<longrightarrow>
            mem_alloc sz new_ok st
            = (data_ptr b,
               st\<lparr>pool_head :=
                    xs @ b\<lparr>block_size := sz, is_available := False\<rparr>
                       # \<lparr>block_size = block_size b - sz, is_available = True,
                           data_ptr = data_ptr b + sz\<rparr> # ys\<rparr>) \<and>
            unat (block_size b - sz) = unat (block_size b) - unat sz \<and>
            unat (data_ptr b + sz) = unat (data_ptr b) + unat sz) \<and>
         (sz = block_size b \<longrightarrow>
            mem_alloc sz new_ok st
            = (data_ptr b, st\<lparr>pool_head := xs @ b\<lparr>is_available := False\<rparr> # ys\<rparr>))"
proof (intro conjI impI)
  assume split: "sz < block_size b \<and> new_ok"
  with alloc_walk_found [OF assms(3,4), of new_ok ys] assms(2)
  show "mem_alloc sz new_ok st
        = (data_ptr b,
           st\<lparr>pool_head :=
                xs @ b\<lparr>block_size := sz, is_available := False\<rparr>
                   # \<lparr>block_size = block_size b - sz, is_available = True,
                       data_ptr = data_ptr b + sz\<rparr> # ys\<rparr>)"
    by (simp add: mem_alloc_def)
  from split have "sz \<le> block_size b" by auto
  from unat_sub [OF this]
  show "unat (block_size b - sz) = unat (block_size b) - unat sz" .
  from assms(1,2) have "b \<in> set (pool_head st)"
    and "covers (unat (pool_start st)) (pool_head st)
           (unat (pool_start st) + unat (total_pool_size st))"
    and "unat (pool_start st) + unat (total_pool_size st) \<le> 2 ^ 64"
    by (simp_all add: pool_inv_def)
  from covers_bounds [OF this(2,1)] this(3)
  have fit: "unat (data_ptr b) + unat (block_size b) \<le> 2 ^ 64" by simp
  from split have "sz < block_size b" by simp
  from unat_split_ptr [OF this fit]
  show "unat (data_ptr b + sz) = unat (data_ptr b) + unat sz" .
next
  assume "sz = block_size b"
  with alloc_walk_found [OF assms(3,4), of new_ok ys] assms(2)
  show "mem_alloc sz new_ok st
        = (data_ptr b, st\<lparr>pool_head := xs @ b\<lparr>is_available := False\<rparr> # ys\<rparr>)"
    by (simp add: mem_alloc_def)
qed

theorem mem_alloc_split_witness:
  "mem_alloc 10 True pool_abc
     = (4096, pool_abc\<lparr>pool_head :=
                 [\<lparr>block_size = 10, is_available = False, data_ptr = 4096\<rparr>,
                  \<lparr>block_size = 20, is_available = True, data_ptr = 4106\<rparr>,
                  \<lparr>block_size = 20, is_available = False, data_ptr = 4126\<rparr>,
                  \<lparr>block_size = 50, is_available = True, data_ptr = 4146\<rparr>]\<rparr>) \<and>
   mem_alloc 50 False pool_abc
     = (4146, pool_abc\<lparr>pool_head :=
                 [\<lparr>block_size = 30, is_available = True, data_ptr = 4096\<rparr>,
                  \<lparr>block_size = 20, is_available = False, data_ptr = 4126\<rparr>,
                  \<lparr>block_size = 50, is_available = False, data_ptr = 4146\<rparr>]\<rparr>)"
proof -
  let ?b1 = "\<lparr>block_size = 30, is_available = True, data_ptr = 4096\<rparr>"
  let ?b2 = "\<lparr>block_size = 20, is_available = False, data_ptr = 4126\<rparr>"
  let ?b3 = "\<lparr>block_size = 50, is_available = True, data_ptr = 4146\<rparr>"
  have h1: "pool_head pool_abc = [] @ ?b1 # [?b2, ?b3]" by (simp add: pool_abc_def)
  have h2: "\<forall>x\<in>set []. \<not> fits 10 x" "fits 10 ?b1" by (simp_all add: fits_def)
  have h3: "(10 :: size_t) < block_size ?b1 \<and> True" by simp
  from mem_alloc_split [OF pool_abc_inv h1 h2, of True] h3
  have "mem_alloc 10 True pool_abc
        = (data_ptr ?b1,
           pool_abc\<lparr>pool_head :=
                [] @ ?b1\<lparr>block_size := 10, is_available := False\<rparr>
                   # \<lparr>block_size = block_size ?b1 - 10, is_available = True,
                       data_ptr = data_ptr ?b1 + 10\<rparr> # [?b2, ?b3]\<rparr>)"
    by blast
  then have first: "mem_alloc 10 True pool_abc
     = (4096, pool_abc\<lparr>pool_head :=
                 [\<lparr>block_size = 10, is_available = False, data_ptr = 4096\<rparr>,
                  \<lparr>block_size = 20, is_available = True, data_ptr = 4106\<rparr>, ?b2, ?b3]\<rparr>)"
    by simp
  have k1: "pool_head pool_abc = [?b1, ?b2] @ ?b3 # []" by (simp add: pool_abc_def)
  have k2: "\<forall>x\<in>set [?b1, ?b2]. \<not> fits 50 x" "fits 50 ?b3" by (simp_all add: fits_def)
  have k3: "(50 :: size_t) = block_size ?b3" by simp
  from mem_alloc_split [OF pool_abc_inv k1 k2, of False] k3
  have "mem_alloc 50 False pool_abc
        = (data_ptr ?b3, pool_abc\<lparr>pool_head := [?b1, ?b2] @ ?b3\<lparr>is_available := False\<rparr> # []\<rparr>)"
    by blast
  then have "mem_alloc 50 False pool_abc
     = (4146, pool_abc\<lparr>pool_head := [?b1, ?b2,
            \<lparr>block_size = 50, is_available = False, data_ptr = 4146\<rparr>]\<rparr>)"
    by simp
  with first show ?thesis by simp
qed

text \<open>
  When the record for the remainder cannot be had, the record found is larger than
  the request and yet stays as it was: free, of its old size, the only record.
\<close>

theorem split_counterexample:
  "pool_inv pool_100 \<and>
   find (fits 30) (pool_head pool_100)
     = Some \<lparr>block_size = 100, is_available = True, data_ptr = 4096\<rparr> \<and>
   pool_head (snd (mem_alloc 30 False pool_100))
     = [\<lparr>block_size = 100, is_available = True, data_ptr = 4096\<rparr>]"
  by (simp add: pool_100_inv) (simp add: pool_100_def fits_def mem_alloc_def)

text \<open>
  C5. \<open>mem_free\<close> of the address of a record in use marks the record available and
  merges into it every available record that follows it directly: they leave the
  list and their sizes are added to its size. What follows the merged record, if
  anything, is a record in use. In an initialized pool the sum does not wrap
  around: the merged size is the sum of the sizes as numbers.
\<close>

theorem mem_free_coalesces_forward:
  assumes "ptr \<noteq> NULL" and "pool_head st = xs @ b # fs @ rest"
    and "\<forall>x\<in>set xs. data_ptr x \<noteq> ptr" and "data_ptr b = ptr" and "\<not> is_available b"
    and "\<forall>f\<in>set fs. is_available f" and "rest = [] \<or> \<not> is_available (hd rest)"
  shows "mem_free ptr st
         = st\<lparr>pool_head :=
                xs @ b\<lparr>is_available := True,
                        block_size := block_size b + sum_list (map block_size fs)\<rparr> # rest\<rparr> \<and>
         (pool_inv st \<longrightarrow>
            unat (block_size b + sum_list (map block_size fs))
            = unat (block_size b) + sum_list (map (\<lambda>f. unat (block_size f)) fs))"
proof (intro conjI impI)
  from coalesce_run [OF assms(6,7), of "b\<lparr>is_available := True\<rparr>"]
    free_walk_found [OF assms(3,4,5), of "fs @ rest"] assms(1,2)
  show "mem_free ptr st
         = st\<lparr>pool_head :=
                xs @ b\<lparr>is_available := True,
                        block_size := block_size b + sum_list (map block_size fs)\<rparr> # rest\<rparr>"
    by (simp add: mem_free_def)
next
  assume "pool_inv st"
  with assms(2) have c: "covers (unat (pool_start st)) (xs @ (b # fs) @ rest)
      (unat (pool_start st) + unat (total_pool_size st))"
    by (simp add: pool_inv_def)
  then obtain m where m: "covers (unat (pool_start st)) xs m"
    and "covers m ((b # fs) @ rest) (unat (pool_start st) + unat (total_pool_size st))"
    unfolding covers_append [of _ xs] by blast
  from covers_sum [OF this(2)] covers_le [OF m]
  have "unat (block_size b) + sum_list (map (\<lambda>f. unat (block_size f)) fs)
        \<le> unat (total_pool_size st)" by simp
  moreover have "unat (total_pool_size st) < 2 ^ LENGTH(64)" by (rule unsigned_less)
  ultimately have "unat (block_size b) + sum_list (map (\<lambda>f. unat (block_size f)) fs) < 2 ^ 64"
    by simp
  then show "unat (block_size b + sum_list (map block_size fs))
      = unat (block_size b) + sum_list (map (\<lambda>f. unat (block_size f)) fs)"
    by (rule unat_sum_sizes)
qed

theorem mem_free_coalesces_forward_witness:
  "mem_free 4096 pool_frag
   = pool_frag\<lparr>pool_head := [\<lparr>block_size = 100, is_available = True, data_ptr = 4096\<rparr>]\<rparr> \<and>
   pool_head (mem_free 4126 pool_abc)
   = [\<lparr>block_size = 30, is_available = True, data_ptr = 4096\<rparr>,
      \<lparr>block_size = 70, is_available = True, data_ptr = 4126\<rparr>]"
proof -
  let ?b = "\<lparr>block_size = 10, is_available = False, data_ptr = 4096\<rparr>"
  let ?f1 = "\<lparr>block_size = 20, is_available = True, data_ptr = 4106\<rparr>"
  let ?f2 = "\<lparr>block_size = 70, is_available = True, data_ptr = 4126\<rparr>"
  have h: "(4096 :: addr) \<noteq> NULL" "pool_head pool_frag = [] @ ?b # [?f1, ?f2] @ []"
    "\<forall>x\<in>set []. data_ptr x \<noteq> (4096 :: addr)" "data_ptr ?b = 4096" "\<not> is_available ?b"
    "\<forall>f\<in>set [?f1, ?f2]. is_available f" "[] = [] \<or> \<not> is_available (hd ([] :: MemBlock list))"
    by (simp_all add: pool_frag_def NULL_def)
  from mem_free_coalesces_forward [OF h]
  have one: "mem_free 4096 pool_frag
   = pool_frag\<lparr>pool_head := [\<lparr>block_size = 100, is_available = True, data_ptr = 4096\<rparr>]\<rparr>"
    by simp
  let ?a = "\<lparr>block_size = 30, is_available = True, data_ptr = 4096\<rparr>"
  let ?c = "\<lparr>block_size = 20, is_available = False, data_ptr = 4126\<rparr>"
  let ?d = "\<lparr>block_size = 50, is_available = True, data_ptr = 4146\<rparr>"
  have k: "(4126 :: addr) \<noteq> NULL" "pool_head pool_abc = [?a] @ ?c # [?d] @ []"
    "\<forall>x\<in>set [?a]. data_ptr x \<noteq> (4126 :: addr)" "data_ptr ?c = 4126" "\<not> is_available ?c"
    "\<forall>f\<in>set [?d]. is_available f" "[] = [] \<or> \<not> is_available (hd ([] :: MemBlock list))"
    by (simp_all add: pool_abc_def NULL_def)
  from mem_free_coalesces_forward [OF k]
  have "pool_head (mem_free 4126 pool_abc)
   = [?a, \<lparr>block_size = 70, is_available = True, data_ptr = 4126\<rparr>]"
    by simp
  with one show ?thesis by simp
qed

text \<open>
  C6. \<open>mem_free\<close> of \<open>NULL\<close>, of an address that no record starts at, or of an
  address whose record is already available prints one warning and changes nothing
  else. A second \<open>mem_free\<close> of the same address only prints the warning that the
  block is already free, and the pool is still initialized after it.
\<close>

theorem mem_free_misuse_inert:
  "mem_free NULL st = st\<lparr>stderr := stderr st @ [Warn_free_null]\<rparr> \<and>
   (p \<noteq> NULL \<and> (\<forall>b\<in>set (pool_head st). data_ptr b \<noteq> p) \<longrightarrow>
      mem_free p st = st\<lparr>stderr := stderr st @ [Warn_not_from_pool p]\<rparr>) \<and>
   (q \<noteq> NULL \<and> find (\<lambda>b. data_ptr b = q) (pool_head st) = Some bq \<and> is_available bq \<longrightarrow>
      mem_free q st = st\<lparr>stderr := stderr st @ [Warn_already_free q]\<rparr>) \<and>
   (r \<noteq> NULL \<and> find (\<lambda>b. data_ptr b = r) (pool_head st) = Some br \<longrightarrow>
      mem_free r (mem_free r st)
      = (mem_free r st)\<lparr>stderr := stderr (mem_free r st) @ [Warn_already_free r]\<rparr>) \<and>
   (pool_inv st \<longrightarrow> pool_inv (mem_free r (mem_free r st)))"
proof (intro conjI impI)
  show "mem_free NULL st = st\<lparr>stderr := stderr st @ [Warn_free_null]\<rparr>"
    by (simp add: mem_free_def)
next
  assume "p \<noteq> NULL \<and> (\<forall>b\<in>set (pool_head st). data_ptr b \<noteq> p)"
  then show "mem_free p st = st\<lparr>stderr := stderr st @ [Warn_not_from_pool p]\<rparr>"
    by (simp add: mem_free_def free_walk_not_found)
next
  assume "q \<noteq> NULL \<and> find (\<lambda>b. data_ptr b = q) (pool_head st) = Some bq \<and> is_available bq"
  then show "mem_free q st = st\<lparr>stderr := stderr st @ [Warn_already_free q]\<rparr>"
    by (simp add: mem_free_def free_walk_already_free)
next
  assume "r \<noteq> NULL \<and> find (\<lambda>b. data_ptr b = r) (pool_head st) = Some br"
  then show "mem_free r (mem_free r st)
      = (mem_free r st)\<lparr>stderr := stderr (mem_free r st) @ [Warn_already_free r]\<rparr>"
    by (simp add: mem_free_twice)
next
  assume "pool_inv st"
  then show "pool_inv (mem_free r (mem_free r st))"
    by (intro mem_free_inv)
qed

theorem mem_free_misuse_inert_witness:
  "mem_free NULL pool_abc = pool_abc\<lparr>stderr := [Warn_free_null]\<rparr> \<and>
   mem_free 5000 pool_abc = pool_abc\<lparr>stderr := [Warn_not_from_pool 5000]\<rparr> \<and>
   mem_free 4096 pool_abc = pool_abc\<lparr>stderr := [Warn_already_free 4096]\<rparr> \<and>
   stderr (mem_free 4126 pool_abc) = [] \<and>
   stderr (mem_free 4126 (mem_free 4126 pool_abc)) = [Warn_already_free 4126] \<and>
   pool_head (mem_free 4126 (mem_free 4126 pool_abc)) = pool_head (mem_free 4126 pool_abc) \<and>
   pool_inv (mem_free 4126 (mem_free 4126 pool_abc))"
proof -
  have h1: "(5000 :: addr) \<noteq> NULL \<and> (\<forall>b\<in>set (pool_head pool_abc). data_ptr b \<noteq> 5000)"
    by (simp add: pool_abc_def NULL_def)
  have h2: "(4096 :: addr) \<noteq> NULL \<and>
      find (\<lambda>b. data_ptr b = 4096) (pool_head pool_abc)
        = Some \<lparr>block_size = 30, is_available = True, data_ptr = 4096\<rparr> \<and>
      is_available \<lparr>block_size = 30, is_available = True, data_ptr = 4096\<rparr>"
    by (simp add: pool_abc_def NULL_def)
  have h3: "(4126 :: addr) \<noteq> NULL \<and>
      find (\<lambda>b. data_ptr b = 4126) (pool_head pool_abc)
        = Some \<lparr>block_size = 20, is_available = False, data_ptr = 4126\<rparr>"
    by (simp add: pool_abc_def NULL_def)
  have e: "stderr pool_abc = []" "stderr (mem_free 4126 pool_abc) = []"
    by (simp_all add: pool_abc_def mem_free_def NULL_def)
  from mem_free_misuse_inert [of pool_abc 5000 4096
      "\<lparr>block_size = 30, is_available = True, data_ptr = 4096\<rparr>" 4126
      "\<lparr>block_size = 20, is_available = False, data_ptr = 4126\<rparr>"]
    h1 h2 h3 pool_abc_inv
  have "mem_free NULL pool_abc = pool_abc\<lparr>stderr := stderr pool_abc @ [Warn_free_null]\<rparr>"
    and "mem_free 5000 pool_abc = pool_abc\<lparr>stderr := stderr pool_abc @ [Warn_not_from_pool 5000]\<rparr>"
    and "mem_free 4096 pool_abc = pool_abc\<lparr>stderr := stderr pool_abc @ [Warn_already_free 4096]\<rparr>"
    and "mem_free 4126 (mem_free 4126 pool_abc)
         = (mem_free 4126 pool_abc)\<lparr>stderr := stderr (mem_free 4126 pool_abc)
                                               @ [Warn_already_free 4126]\<rparr>"
    and "pool_inv (mem_free 4126 (mem_free 4126 pool_abc))"
    by blast+
  with e show ?thesis by simp
qed

text \<open>
  C7. A failing \<open>mem_alloc\<close> hands out nothing and leaves the list as it was. When no
  record fits, it returns \<open>NULL\<close> and the state is the same. When the first record
  that fits has to be split and the record for the remainder cannot be had, it
  returns \<open>NULL\<close> too, and nothing but the line \<open>perror\<close> printed tells the states
  apart.
\<close>

theorem mem_alloc_failure_atomic:
  "((\<forall>b\<in>set (pool_head st). \<not> fits sz b) \<longrightarrow> mem_alloc sz new_ok st = (NULL, st)) \<and>
   (find (fits sz') (pool_head st) = Some b \<and> sz' < block_size b \<longrightarrow>
      mem_alloc sz' False st
      = (NULL, st\<lparr>stderr := stderr st @ [Perror_new_block_metadata]\<rparr>))"
proof (intro conjI impI)
  assume "\<forall>b\<in>set (pool_head st). \<not> fits sz b"
  then have "find (fits sz) (pool_head st) = None" by (simp add: find_None_iff)
  from alloc_walk_none [OF this] show "mem_alloc sz new_ok st = (NULL, st)"
    by (simp add: mem_alloc_def)
next
  assume "find (fits sz') (pool_head st) = Some b \<and> sz' < block_size b"
  then have "alloc_walk sz' False (pool_head st)
      = (NULL, [Perror_new_block_metadata], pool_head st)"
    by (simp add: alloc_walk_no_record)
  then show "mem_alloc sz' False st
      = (NULL, st\<lparr>stderr := stderr st @ [Perror_new_block_metadata]\<rparr>)"
    by (simp add: mem_alloc_def)
qed

theorem mem_alloc_failure_atomic_witness:
  "mem_alloc 200 True pool_100 = (NULL, pool_100) \<and>
   mem_alloc 30 False pool_100 = (NULL, pool_100\<lparr>stderr := [Perror_new_block_metadata]\<rparr>)"
proof -
  let ?b = "\<lparr>block_size = 100, is_available = True, data_ptr = 4096\<rparr>"
  have h1: "\<forall>b\<in>set (pool_head pool_100). \<not> fits 200 b"
    by (simp add: pool_100_def fits_def)
  have h2: "find (fits 30) (pool_head pool_100) = Some ?b \<and> 30 < block_size ?b"
    by (simp add: pool_100_def fits_def)
  have e: "stderr pool_100 = []" by (simp add: pool_100_def)
  from mem_alloc_failure_atomic [of pool_100 200 True 30 ?b] h1 h2
  have "mem_alloc 200 True pool_100 = (NULL, pool_100)"
    and "mem_alloc 30 False pool_100
         = (NULL, pool_100\<lparr>stderr := stderr pool_100 @ [Perror_new_block_metadata]\<rparr>)"
    by blast+
  with e show ?thesis by simp
qed

text \<open>
  C8. \<open>mem_resize\<close> of an address whose record \<open>block\<close> is smaller than the new size
  calls \<open>mem_alloc\<close> for the new size and returns what it returns. When that is not
  \<open>NULL\<close>: \<open>memcpy\<close> is called on regions that do not overlap; afterwards the first
  \<open>block_size block\<close> bytes at the new address are the bytes that were at the old
  address and every other byte of memory is as before; the old address has then
  been given to \<open>mem_free\<close>, and its record is available. When \<open>mem_alloc\<close> returns
  \<open>NULL\<close>, the list and the memory are as they were before the call.
\<close>

theorem mem_resize_moves_block:
  assumes "pool_inv st" and "ptr \<noteq> NULL"
    and "find (\<lambda>b. data_ptr b = ptr) (pool_head st) = Some block"
    and "block_size block < sz"
    and "mem_alloc sz new_ok st = (new_ptr, st1)"
    and "mem_resize ptr sz new_ok st = (r, st')"
  shows "r = new_ptr \<and>
         (new_ptr \<noteq> NULL \<longrightarrow>
            st' = mem_free ptr
                    (st1\<lparr>memory := memcpy new_ptr ptr (block_size block) (memory st1)\<rparr>) \<and>
            regions_disjoint new_ptr ptr (block_size block) \<and>
            (\<forall>i. i < block_size block \<longrightarrow> memory st' (new_ptr + i) = memory st (ptr + i)) \<and>
            (\<forall>a. \<not> a - new_ptr < block_size block \<longrightarrow> memory st' a = memory st a) \<and>
            (\<exists>b'. find (\<lambda>b. data_ptr b = ptr) (pool_head st') = Some b' \<and> is_available b')) \<and>
         (new_ptr = NULL \<longrightarrow>
            st' = st1 \<and> pool_head st' = pool_head st \<and> memory st' = memory st)"
proof -
  let ?n = "block_size block"
  let ?copied = "st1\<lparr>memory := memcpy new_ptr ptr ?n (memory st1)\<rparr>"
  from assms(4) have big: "\<not> sz \<le> ?n" by simp
  from assms(5) have st1: "st1 = snd (mem_alloc sz new_ok st)"
    and new_ptr: "new_ptr = fst (mem_alloc sz new_ok st)" by simp_all
  from st1 have mem1: "memory st1 = memory st"
    and head1: "pool_head st1 = snd (snd (alloc_walk sz new_ok (pool_head st)))"
    by (simp_all add: mem_alloc_fields)
  from assms(2,3,5,6) big
  have res: "(r, st') = (if new_ptr \<noteq> NULL then (new_ptr, mem_free ptr ?copied)
                        else (new_ptr, st1))"
    by (simp add: mem_resize_def)
  then have r: "r = new_ptr" by (simp split: if_splits)
  have ok: "st' = mem_free ptr ?copied \<and>
            regions_disjoint new_ptr ptr ?n \<and>
            (\<forall>i. i < ?n \<longrightarrow> memory st' (new_ptr + i) = memory st (ptr + i)) \<and>
            (\<forall>a. \<not> a - new_ptr < ?n \<longrightarrow> memory st' a = memory st a) \<and>
            (\<exists>b'. find (\<lambda>b. data_ptr b = ptr) (pool_head st') = Some b' \<and> is_available b')"
    if nn: "new_ptr \<noteq> NULL"
  proof -
    from res nn have st': "st' = mem_free ptr ?copied" by simp
    then have mem': "memory st' = memcpy new_ptr ptr ?n (memory st)"
      by (simp add: mem_free_fields mem1)
    from assms(1) have c: "covers (unat (pool_start st)) (pool_head st)
        (unat (pool_start st) + unat (total_pool_size st))"
      and e: "unat (pool_start st) + unat (total_pool_size st) \<le> 2 ^ 64"
      by (simp_all add: pool_inv_def)
    from new_ptr alloc_walk_ptr [of sz new_ok "pool_head st"]
    have p: "new_ptr = (case find (fits sz) (pool_head st) of None \<Rightarrow> NULL
        | Some b \<Rightarrow> if sz < block_size b \<and> \<not> new_ok then NULL else data_ptr b)"
      by (cases "alloc_walk sz new_ok (pool_head st)") (simp add: mem_alloc_def)
    with nn obtain c' where c': "find (fits sz) (pool_head st) = Some c'"
      and "new_ptr = data_ptr c'"
      by (cases "find (fits sz) (pool_head st)") (auto split: if_splits)
    with fresh_block_disjoint [OF c e assms(3,4) c']
    have disjoint: "regions_disjoint new_ptr ptr ?n" by simp
    from alloc_walk_keeps_find [OF assms(3), of sz new_ok] head1
    obtain b1 where "find (\<lambda>b. data_ptr b = ptr) (pool_head ?copied) = Some b1"
      by auto
    from free_walk_marks [OF this] assms(2) st'
    have freed: "\<exists>b'. find (\<lambda>b. data_ptr b = ptr) (pool_head st') = Some b' \<and> is_available b'"
      by (simp add: mem_free_head)
    from st' disjoint freed mem' show ?thesis
      by (simp add: memcpy_copied memcpy_other)
  qed
  have failed: "st' = st1 \<and> pool_head st' = pool_head st \<and> memory st' = memory st"
    if null: "new_ptr = NULL"
  proof -
    from res null have st': "st' = st1" by simp
    obtain p out bs where w: "alloc_walk sz new_ok (pool_head st) = (p, out, bs)"
      by (cases "alloc_walk sz new_ok (pool_head st)") auto
    with new_ptr null have "p = NULL" by (simp add: mem_alloc_def)
    with w pool_inv_ptr_not_null [OF assms(1)]
    have "bs = pool_head st" by (intro alloc_walk_null [of "pool_head st" sz new_ok out]) auto
    with w head1 st' mem1 show ?thesis by simp
  qed
  from r ok failed show ?thesis by blast
qed

theorem mem_resize_moves_block_witness:
  "fst (mem_resize 4126 40 True (pool_abc\<lparr>memory := (\<lambda>a. ucast a)\<rparr>)) = 4146 \<and>
   memory (snd (mem_resize 4126 40 True (pool_abc\<lparr>memory := (\<lambda>a. ucast a)\<rparr>))) (4146 + 4)
     = ucast (4126 + 4 :: addr) \<and>
   memory (snd (mem_resize 4126 40 True (pool_abc\<lparr>memory := (\<lambda>a. ucast a)\<rparr>))) (4146 + 20)
     = ucast (4146 + 20 :: addr) \<and>
   regions_disjoint 4146 4126 20 \<and>
   mem_resize 4126 80 True (pool_abc\<lparr>memory := (\<lambda>a. ucast a)\<rparr>)
     = (NULL, pool_abc\<lparr>memory := (\<lambda>a. ucast a)\<rparr>)"
proof -
  let ?st = "pool_abc\<lparr>memory := (\<lambda>a. ucast a)\<rparr>"
  let ?b = "\<lparr>block_size = 20, is_available = False, data_ptr = 4126\<rparr>"
  have inv: "pool_inv ?st" by (simp add: pool_inv_memory pool_abc_inv)
  have nn: "(4126 :: addr) \<noteq> NULL" by (simp add: NULL_def)
  have blk: "find (\<lambda>b. data_ptr b = 4126) (pool_head ?st) = Some ?b"
    by (simp add: pool_abc_def)
  have small: "block_size ?b < 40" "block_size ?b < 80" by simp_all
  obtain st1 where a1: "mem_alloc 40 True ?st = (4146, st1)"
    by (simp add: mem_alloc_def pool_abc_def)
  obtain st' where r1: "mem_resize 4126 40 True ?st = (fst (mem_resize 4126 40 True ?st), st')"
    by (cases "mem_resize 4126 40 True ?st") auto
  have ok: "(4146 :: addr) \<noteq> NULL" by (simp add: NULL_def)
  from mem_resize_moves_block [OF inv nn blk small(1) a1 r1] ok
  have res: "fst (mem_resize 4126 40 True ?st) = 4146"
    and disjoint: "regions_disjoint 4146 4126 (block_size ?b)"
    and copied: "\<forall>i. i < block_size ?b \<longrightarrow> memory st' (4146 + i) = memory ?st (4126 + i)"
    and others: "\<forall>a. \<not> a - 4146 < block_size ?b \<longrightarrow> memory st' a = memory ?st a"
    by blast+
  from r1 have st': "st' = snd (mem_resize 4126 40 True ?st)" by (metis snd_conv)
  from copied [rule_format, of 4] have "memory st' (4146 + 4) = ucast (4126 + 4 :: addr)"
    by simp
  moreover from others [rule_format, of "4146 + 20"]
  have "memory st' (4146 + 20) = ucast (4146 + 20 :: addr)"
    by simp
  ultimately have moved: "fst (mem_resize 4126 40 True ?st) = 4146"
    "memory (snd (mem_resize 4126 40 True ?st)) (4146 + 4) = ucast (4126 + 4 :: addr)"
    "memory (snd (mem_resize 4126 40 True ?st)) (4146 + 20) = ucast (4146 + 20 :: addr)"
    "regions_disjoint 4146 4126 20"
    using res disjoint st' by simp_all
  have a2: "mem_alloc 80 True ?st = (NULL, ?st)"
    by (simp add: mem_alloc_def pool_abc_def)
  obtain r st2 where r2: "mem_resize 4126 80 True ?st = (r, st2)"
    by (cases "mem_resize 4126 80 True ?st") auto
  from mem_resize_moves_block [OF inv nn blk small(2) a2 r2] r2
  have "mem_resize 4126 80 True ?st = (NULL, ?st)" by simp
  with moved show ?thesis by simp
qed

text \<open>
  C9. \<open>mem_resize\<close> of \<open>NULL\<close> is \<open>mem_alloc\<close>: the same pointer and the same state.
  \<open>mem_resize\<close> of an address whose record has at least the new size returns the
  address and changes nothing. \<open>mem_resize\<close> of an address that no record starts at
  returns \<open>NULL\<close> and only prints a warning.
\<close>

theorem mem_resize_simple_cases:
  "mem_resize NULL sz new_ok st = mem_alloc sz new_ok st \<and>
   (p \<noteq> NULL \<and> find (\<lambda>b. data_ptr b = p) (pool_head st) = Some b \<and> sz \<le> block_size b \<longrightarrow>
      mem_resize p sz new_ok st = (p, st)) \<and>
   (q \<noteq> NULL \<and> (\<forall>b\<in>set (pool_head st). data_ptr b \<noteq> q) \<longrightarrow>
      mem_resize q sz new_ok st
      = (NULL, st\<lparr>stderr := stderr st @ [Warn_resize_not_found q]\<rparr>))"
proof (intro conjI impI)
  show "mem_resize NULL sz new_ok st = mem_alloc sz new_ok st"
    by (simp add: mem_resize_def)
next
  assume "p \<noteq> NULL \<and> find (\<lambda>b. data_ptr b = p) (pool_head st) = Some b \<and> sz \<le> block_size b"
  then show "mem_resize p sz new_ok st = (p, st)"
    by (simp add: mem_resize_def)
next
  assume q: "q \<noteq> NULL \<and> (\<forall>b\<in>set (pool_head st). data_ptr b \<noteq> q)"
  then have "find (\<lambda>b. data_ptr b = q) (pool_head st) = None"
    by (simp add: find_None_iff)
  with q show "mem_resize q sz new_ok st
      = (NULL, st\<lparr>stderr := stderr st @ [Warn_resize_not_found q]\<rparr>)"
    by (simp add: mem_resize_def)
qed

theorem mem_resize_simple_cases_witness:
  "mem_resize NULL 10 True pool_abc = mem_alloc 10 True pool_abc \<and>
   mem_resize 4126 15 True pool_abc = (4126, pool_abc) \<and>
   mem_resize 5000 15 True pool_abc = (NULL, pool_abc\<lparr>stderr := [Warn_resize_not_found 5000]\<rparr>)"
proof -
  let ?b = "\<lparr>block_size = 20, is_available = False, data_ptr = 4126\<rparr>"
  have h1: "(4126 :: addr) \<noteq> NULL \<and>
      find (\<lambda>b. data_ptr b = 4126) (pool_head pool_abc) = Some ?b \<and> 15 \<le> block_size ?b"
    by (simp add: pool_abc_def NULL_def)
  have h2: "(5000 :: addr) \<noteq> NULL \<and> (\<forall>b\<in>set (pool_head pool_abc). data_ptr b \<noteq> 5000)"
    by (simp add: pool_abc_def NULL_def)
  have e: "stderr pool_abc = []" by (simp add: pool_abc_def)
  from mem_resize_simple_cases [of 15 True pool_abc 4126 ?b 5000] h1 h2
  have "mem_resize 4126 15 True pool_abc = (4126, pool_abc)"
    and "mem_resize 5000 15 True pool_abc
         = (NULL, pool_abc\<lparr>stderr := stderr pool_abc @ [Warn_resize_not_found 5000]\<rparr>)"
    by blast+
  moreover from mem_resize_simple_cases [of 10 True pool_abc]
  have "mem_resize NULL 10 True pool_abc = mem_alloc 10 True pool_abc" by blast
  ultimately show ?thesis using e by simp
qed

text \<open>
  C10. \<open>mem_resize\<close> does not look at \<open>is_available\<close>: for an address whose record is
  free already and has at least the new size, it returns the address, prints
  nothing and changes nothing.
\<close>

theorem mem_resize_of_free_block:
  "p \<noteq> NULL \<Longrightarrow> find (\<lambda>b. data_ptr b = p) (pool_head st) = Some b \<Longrightarrow> is_available b \<Longrightarrow>
   sz \<le> block_size b \<Longrightarrow> mem_resize p sz new_ok st = (p, st)"
  by (simp add: mem_resize_def)

theorem mem_resize_of_free_block_witness:
  "mem_resize 4146 40 True pool_abc = (4146, pool_abc)"
proof -
  let ?b = "\<lparr>block_size = 50, is_available = True, data_ptr = 4146\<rparr>"
  have "(4146 :: addr) \<noteq> NULL" by (simp add: NULL_def)
  moreover have "find (\<lambda>b. data_ptr b = 4146) (pool_head pool_abc) = Some ?b"
    by (simp add: pool_abc_def)
  moreover have "is_available ?b" "40 \<le> block_size ?b" by simp_all
  ultimately show ?thesis by (rule mem_resize_of_free_block)
qed

end
